theory Spec2Isabelle
  imports Main "HOL-Library.Word"
begin

unbundle bit_operations_syntax

section \<open>The LRU-K replacer (lru\_k\_replacer.h, lru\_k\_replacer.cpp)\<close>

text \<open>
  \<^verbatim>\<open>size_t\<close> is a 64-bit unsigned word: \<^verbatim>\<open>size_++\<close> and \<^verbatim>\<open>size_--\<close> wrap around.
  \<^verbatim>\<open>frame_id_t\<close> is declared in common/config.h, which is not among the sources; the
  replacer only copies frame ids, compares them for equality and uses them as keys, so the
  type is left as the parameter \<open>'f\<close>.

  Node objects live on the heap and are shared between \<^verbatim>\<open>frame_map_\<close> and the linked list.
  The model keeps them in a store indexed by address (\<open>nodes\<close>); \<open>next_node\<close> is the address
  the next \<^verbatim>\<open>make_shared<Node>\<close> returns. The \<^verbatim>\<open>prev_\<close>/\<^verbatim>\<open>next_\<close> links of the list
  from \<^verbatim>\<open>head_\<close> over \<^verbatim>\<open>middle_\<close> to \<^verbatim>\<open>tail_\<close> are kept as the two sequences of node
  addresses they spell out: \<open>cache_list\<close> from \<^verbatim>\<open>head_->next_\<close> up to \<^verbatim>\<open>middle_\<close>, and
  \<open>history_list\<close> from \<^verbatim>\<open>middle_->next_\<close> up to \<^verbatim>\<open>tail_\<close>.
\<close>

type_synonym size_t = "64 word"

record 'f Node =
  frame_id_' :: 'f
  count_' :: size_t
  evictable_' :: bool

text \<open>\<^verbatim>\<open>explicit Node(frame_id_t frame_id) : frame_id_(frame_id), count_(1) {}\<close>\<close>

definition Node :: "'f \<Rightarrow> 'f Node" where
  "Node frame_id = \<lparr>frame_id_' = frame_id, count_' = 1, evictable_' = False\<rparr>"

record NodeList =
  size_' :: size_t
  cache_list :: "nat list"
  history_list :: "nat list"

record 'f LRUKReplacer =
  replacer_size_' :: size_t
  k_' :: size_t
  list_' :: NodeList
  frame_map_' :: "'f \<rightharpoonup> nat"
  nodes :: "nat \<Rightarrow> 'f Node"
  next_node :: nat

text \<open>
  \<open>FrameNotFound\<close> is the \<^verbatim>\<open>std::runtime_error\<close> of SetEvictable, \<open>NotEvictable\<close> the
  \<^verbatim>\<open>std::exception\<close> of Remove. \<open>NullPointer\<close> stands for the null dereference of
  \<^verbatim>\<open>node->prev_->next_\<close> when List::Remove is handed a node that is linked nowhere.
\<close>

datatype lru_error = FrameNotFound | NotEvictable | NullPointer

definition List_new :: NodeList where
  "List_new = \<lparr>size_' = 0, cache_list = [], history_list = []\<rparr>"

definition List_Size :: "NodeList \<Rightarrow> size_t" where
  "List_Size l = size_' l"

definition IncrementSize :: "NodeList \<Rightarrow> NodeList" where
  "IncrementSize l = l\<lparr>size_' := size_' l + 1\<rparr>"

definition DecrementSize :: "NodeList \<Rightarrow> NodeList" where
  "DecrementSize l = (if 0 < size_' l then l\<lparr>size_' := size_' l - 1\<rparr> else l)"

text \<open>List::Remove unlinks the node from the segment it is in and counts it out if evictable.\<close>

definition List_Remove :: "(nat \<Rightarrow> 'f Node) \<Rightarrow> NodeList \<Rightarrow> nat \<Rightarrow> lru_error + NodeList" where
  "List_Remove ns l node =
     (if node \<in> set (cache_list l) \<or> node \<in> set (history_list l) then
        Inr (l\<lparr>cache_list := remove1 node (cache_list l),
               history_list := remove1 node (history_list l),
               size_' := (if evictable_' (ns node) then size_' l - 1 else size_' l)\<rparr>)
      else Inl NullPointer)"

text \<open>InsertCacheList links the node just before \<^verbatim>\<open>middle_\<close>, InsertHistoryList just before \<^verbatim>\<open>tail_\<close>.\<close>

definition InsertCacheList :: "(nat \<Rightarrow> 'f Node) \<Rightarrow> NodeList \<Rightarrow> nat \<Rightarrow> NodeList" where
  "InsertCacheList ns l node =
     l\<lparr>cache_list := cache_list l @ [node],
       size_' := (if evictable_' (ns node) then size_' l + 1 else size_' l)\<rparr>"

definition InsertHistoryList :: "(nat \<Rightarrow> 'f Node) \<Rightarrow> NodeList \<Rightarrow> nat \<Rightarrow> NodeList" where
  "InsertHistoryList ns l node =
     l\<lparr>history_list := history_list l @ [node],
       size_' := (if evictable_' (ns node) then size_' l + 1 else size_' l)\<rparr>"

definition LRUKReplacer :: "size_t \<Rightarrow> size_t \<Rightarrow> 'f LRUKReplacer" where
  "LRUKReplacer num_frames k =
     \<lparr>replacer_size_' = num_frames, k_' = k, list_' = List_new, frame_map_' = Map.empty,
      nodes = (\<lambda>_. \<lparr>frame_id_' = undefined, count_' = 0, evictable_' = False\<rparr>), next_node = 0\<rparr>"

text \<open>
  The body of both scan loops of Evict once an evictable node \<open>current\<close> is found: the frame id
  is written to the out-parameter, the node is unlinked and its map entry erased.
\<close>

definition evict_node :: "'f LRUKReplacer \<Rightarrow> nat \<Rightarrow> lru_error + ('f option \<times> 'f LRUKReplacer)" where
  "evict_node s current =
     (case List_Remove (nodes s) (list_' s) current of
        Inl e \<Rightarrow> Inl e
      | Inr l \<Rightarrow>
          Inr (Some (frame_id_' (nodes s current)),
               s\<lparr>list_' := l,
                 frame_map_' := (frame_map_' s)(frame_id_' (nodes s current) := None)\<rparr>))"

text \<open>Evict: the first evictable node of the history list, else of the cache list, else nothing.\<close>

definition Evict :: "'f LRUKReplacer \<Rightarrow> lru_error + ('f option \<times> 'f LRUKReplacer)" where
  "Evict s =
     (case find (\<lambda>a. evictable_' (nodes s a)) (history_list (list_' s)) of
        Some current \<Rightarrow> evict_node s current
      | None \<Rightarrow>
          (case find (\<lambda>a. evictable_' (nodes s a)) (cache_list (list_' s)) of
             Some current \<Rightarrow> evict_node s current
           | None \<Rightarrow> Inr (None, s)))"

definition RecordAccess :: "'f LRUKReplacer \<Rightarrow> 'f \<Rightarrow> lru_error + 'f LRUKReplacer" where
  "RecordAccess s frame_id =
     (case frame_map_' s frame_id of
        Some node \<Rightarrow>
          (let ns = (nodes s)(node := (nodes s node)\<lparr>count_' := count_' (nodes s node) + 1\<rparr>) in
           case List_Remove ns (list_' s) node of
             Inl e \<Rightarrow> Inl e
           | Inr l \<Rightarrow>
               Inr (s\<lparr>nodes := ns,
                      list_' := (if k_' s \<le> count_' (ns node) then InsertCacheList ns l node
                                else InsertHistoryList ns l node)\<rparr>))
      | None \<Rightarrow>
          (let node = next_node s;
               ns = (nodes s)(node := Node frame_id) in
           Inr (s\<lparr>nodes := ns, next_node := node + 1,
                  frame_map_' := (frame_map_' s)(frame_id \<mapsto> node),
                  list_' := (if k_' s \<le> count_' (ns node) then InsertCacheList ns (list_' s) node
                            else InsertHistoryList ns (list_' s) node)\<rparr>)))"

definition SetEvictable :: "'f LRUKReplacer \<Rightarrow> 'f \<Rightarrow> bool \<Rightarrow> lru_error + 'f LRUKReplacer" where
  "SetEvictable s frame_id set_evictable =
     (case frame_map_' s frame_id of
        None \<Rightarrow> Inl FrameNotFound
      | Some node \<Rightarrow>
          (let s1 = (if \<not> evictable_' (nodes s node) \<and> set_evictable
                     then s\<lparr>nodes := (nodes s)(node := (nodes s node)\<lparr>evictable_' := True\<rparr>),
                            list_' := IncrementSize (list_' s)\<rparr>
                     else s);
               s2 = (if evictable_' (nodes s1 node) \<and> \<not> set_evictable
                     then s1\<lparr>nodes := (nodes s1)(node := (nodes s1 node)\<lparr>evictable_' := False\<rparr>),
                             list_' := DecrementSize (list_' s1)\<rparr>
                     else s1)
           in Inr s2))"

definition Remove :: "'f LRUKReplacer \<Rightarrow> 'f \<Rightarrow> lru_error + 'f LRUKReplacer" where
  "Remove s frame_id =
     (case frame_map_' s frame_id of
        None \<Rightarrow> Inr s
      | Some node \<Rightarrow>
          if \<not> evictable_' (nodes s node) then Inl NotEvictable
          else (case List_Remove (nodes s) (list_' s) node of
                  Inl e \<Rightarrow> Inl e
                | Inr l \<Rightarrow> Inr (s\<lparr>list_' := l, frame_map_' := (frame_map_' s)(frame_id := None)\<rparr>)))"

definition Size :: "'f LRUKReplacer \<Rightarrow> size_t" where
  "Size s = List_Size (list_' s)"

text \<open>The states a replacer can be in: a fresh one, and what a returning operation leaves.\<close>

inductive reachable :: "'f LRUKReplacer \<Rightarrow> bool" where
  reachable_new: "reachable (LRUKReplacer num_frames k)"
| reachable_RecordAccess: "reachable s \<Longrightarrow> RecordAccess s f = Inr s' \<Longrightarrow> reachable s'"
| reachable_SetEvictable: "reachable s \<Longrightarrow> SetEvictable s f b = Inr s' \<Longrightarrow> reachable s'"
| reachable_Evict: "reachable s \<Longrightarrow> Evict s = Inr (r, s') \<Longrightarrow> reachable s'"
| reachable_Remove: "reachable s \<Longrightarrow> Remove s f = Inr s' \<Longrightarrow> reachable s'"

text \<open>The frames the replacer tracks that are marked evictable.\<close>

definition evictable_frames :: "'f LRUKReplacer \<Rightarrow> 'f set" where
  "evictable_frames s = {f. \<exists>a. frame_map_' s f = Some a \<and> evictable_' (nodes s a)}"

text \<open>The nodes linked in the list, cache segment first.\<close>

definition all_nodes :: "'f LRUKReplacer \<Rightarrow> nat list" where
  "all_nodes s = cache_list (list_' s) @ history_list (list_' s)"

text \<open>
  What holds of the list, the map and the store in every reachable state: no node is linked
  twice, linked nodes carry different frame ids, \<^verbatim>\<open>frame_map_\<close> maps exactly the frame ids of
  the linked nodes to them, every linked node has been allocated, and a node is in the cache
  segment exactly when its count has reached \<^verbatim>\<open>k_\<close>.
\<close>

definition lru_inv :: "'f LRUKReplacer \<Rightarrow> bool" where
  "lru_inv s \<longleftrightarrow>
     distinct (all_nodes s) \<and>
     inj_on (\<lambda>a. frame_id_' (nodes s a)) (set (all_nodes s)) \<and>
     (\<forall>f a. frame_map_' s f = Some a \<longleftrightarrow> a \<in> set (all_nodes s) \<and> frame_id_' (nodes s a) = f) \<and>
     (\<forall>a \<in> set (all_nodes s). a < next_node s) \<and>
     (\<forall>a \<in> set (cache_list (list_' s)). k_' s \<le> count_' (nodes s a)) \<and>
     (\<forall>a \<in> set (history_list (list_' s)). count_' (nodes s a) < k_' s)"

text \<open>\<^verbatim>\<open>size_\<close> counts the linked nodes that are evictable.\<close>

definition size_inv :: "'f LRUKReplacer \<Rightarrow> bool" where
  "size_inv s \<longleftrightarrow>
     unat (size_' (list_' s)) = length (filter (\<lambda>a. evictable_' (nodes s a)) (all_nodes s))"

text \<open>Two concrete replacers: frame 1 accessed once (k = 2), and then marked evictable.\<close>

definition lru_accessed :: "32 word LRUKReplacer" where
  "lru_accessed = projr (RecordAccess (LRUKReplacer 7 2) 1)"

definition lru_marked :: "32 word LRUKReplacer" where
  "lru_marked = projr (SetEvictable lru_accessed 1 True)"

section \<open>The extendible hash table (extendible\_hash\_table.cpp)\<close>

text \<open>
  Modelled from the spec: the class declarations of extendible\_hash\_table.h, which is not
  among the sources. The members are the ones the constructors initialise and the functions
  use: a bucket has its capacity \<^verbatim>\<open>size_\<close> (here \<open>array_size_'\<close>, after the constructor's
  parameter), its local depth \<^verbatim>\<open>depth_\<close> and its pairs \<^verbatim>\<open>list_\<close> (here \<open>items_'\<close>, after GetItems);
  the table has \<^verbatim>\<open>global_depth_\<close>, \<^verbatim>\<open>bucket_size_\<close>, \<^verbatim>\<open>num_buckets_\<close> and the directory \<^verbatim>\<open>dir_\<close>.

  Depths and the bucket count are C++ \<^verbatim>\<open>int\<close>s that start at 0 or 1 and are only ever
  incremented; they are natural numbers here, and the places where the \<^verbatim>\<open>int\<close> arithmetic
  of the source is undefined (a shift by 31 or more) are failures of the model.

  The directory is a vector of shared pointers: several slots may hold the same bucket, and a
  bucket is changed in place through any of them. The model keeps the buckets in a store
  indexed by address (\<open>buckets\<close>); a slot holds \<open>None\<close> for the null pointer or \<open>Some\<close> address;
  \<open>next_bucket\<close> is the address the next \<^verbatim>\<open>make_shared<Bucket>\<close> returns.
\<close>

record ('k, 'v) Bucket =
  array_size_' :: nat
  depth_' :: nat
  items_' :: "('k \<times> 'v) list"

record ('k, 'v) ExtendibleHashTable =
  global_depth_' :: nat
  bucket_size_' :: nat
  num_buckets_' :: nat
  dir_' :: "nat option list"
  buckets :: "nat \<Rightarrow> ('k, 'v) Bucket"
  next_bucket :: nat

text \<open>
  The behaviours the C++ standard leaves undefined, as failures: a shift whose count is out
  of range for \<^verbatim>\<open>int\<close> (or whose result is), \<^verbatim>\<open>dir_[index]\<close> past the end of the vector, and
  \<^verbatim>\<open>->\<close> on a null pointer.
\<close>

datatype eht_error = UndefinedShift | OutOfBounds | NullBucket

text \<open>
  The ways a call of Insert does not return: it runs into one of the undefined behaviours,
  or \<^verbatim>\<open>dir_.resize\<close> does not get its memory and throws \<^verbatim>\<open>std::bad_alloc\<close>. The exception leaves
  Insert through the \<^verbatim>\<open>lock_guard\<close>, the caller may catch it, and the table stays in use in the
  state the throw left it in, which \<open>BadAlloc\<close> carries.
\<close>

datatype ('k, 'v) eht_failure =
  Undefined eht_error | BadAlloc (left_state: "('k, 'v) ExtendibleHashTable")

definition Bucket :: "nat \<Rightarrow> nat \<Rightarrow> ('k, 'v) Bucket" where
  "Bucket array_size depth = \<lparr>array_size_' = array_size, depth_' = depth, items_' = []\<rparr>"

text \<open>
  Modelled from the spec: IsFull, GetDepth, IncrementDepth and GetItems are defined inline
  in the missing header. The spec: a bucket holds pairs up to a fixed capacity; Insert appends
  if the bucket has spare capacity, otherwise the bucket is full.
\<close>

definition IsFull :: "('k, 'v) Bucket \<Rightarrow> bool" where
  "IsFull b \<longleftrightarrow> array_size_' b \<le> length (items_' b)"

definition GetDepth :: "('k, 'v) Bucket \<Rightarrow> nat" where
  "GetDepth b = depth_' b"

definition IncrementDepth :: "('k, 'v) Bucket \<Rightarrow> ('k, 'v) Bucket" where
  "IncrementDepth b = b\<lparr>depth_' := depth_' b + 1\<rparr>"

definition GetItems :: "('k, 'v) Bucket \<Rightarrow> ('k \<times> 'v) list" where
  "GetItems b = items_' b"

text \<open>Bucket::Find returns the value of the first pair with the key.\<close>

fun find_item :: "('k \<times> 'v) list \<Rightarrow> 'k \<Rightarrow> 'v option" where
  "find_item [] key = None"
| "find_item (item # rest) key = (if fst item = key then Some (snd item) else find_item rest key)"

definition Bucket_Find :: "('k, 'v) Bucket \<Rightarrow> 'k \<Rightarrow> 'v option" where
  "Bucket_Find b key = find_item (items_' b) key"

text \<open>Bucket::Remove erases the first pair with the key (\<^verbatim>\<open>std::find_if\<close>, then \<^verbatim>\<open>erase\<close>).\<close>

fun erase_first :: "'k \<Rightarrow> ('k \<times> 'v) list \<Rightarrow> ('k \<times> 'v) list" where
  "erase_first key [] = []"
| "erase_first key (item # rest) = (if fst item = key then rest else item # erase_first key rest)"

definition Bucket_Remove :: "('k, 'v) Bucket \<Rightarrow> 'k \<Rightarrow> bool \<times> ('k, 'v) Bucket" where
  "Bucket_Remove b key =
     (if key \<in> fst ` set (items_' b) then (True, b\<lparr>items_' := erase_first key (items_' b)\<rparr>)
      else (False, b))"

text \<open>
  Bucket::Insert overwrites the value of the first pair with the key; without such a pair it
  fails on a full bucket and appends otherwise.
\<close>

fun assign_first :: "'k \<Rightarrow> 'v \<Rightarrow> ('k \<times> 'v) list \<Rightarrow> ('k \<times> 'v) list" where
  "assign_first key value [] = []"
| "assign_first key value (item # rest) =
     (if fst item = key then (key, value) # rest else item # assign_first key value rest)"

definition Bucket_Insert :: "('k, 'v) Bucket \<Rightarrow> 'k \<Rightarrow> 'v \<Rightarrow> bool \<times> ('k, 'v) Bucket" where
  "Bucket_Insert b key value =
     (if key \<in> fst ` set (items_' b) then (True, b\<lparr>items_' := assign_first key value (items_' b)\<rparr>)
      else if IsFull b then (False, b)
      else (True, b\<lparr>items_' := items_' b @ [(key, value)]\<rparr>))"

text \<open>The constructor: depth 0, one bucket, one slot.\<close>

definition ExtendibleHashTable :: "nat \<Rightarrow> ('k, 'v) ExtendibleHashTable" where
  "ExtendibleHashTable bucket_size =
     \<lparr>global_depth_' = 0, bucket_size_' = bucket_size, num_buckets_' = 1, dir_' = [Some 0],
      buckets = (\<lambda>_. Bucket 0 0)(0 := Bucket bucket_size 0), next_bucket = 1\<rparr>"

text \<open>
  IndexOf: \<^verbatim>\<open>int mask = (1 << global_depth_) - 1; return std::hash<K>()(key) & mask;\<close>
  The hash function is a parameter. For a depth below 31 the mask is \<open>2 ^ global_depth_ - 1\<close>
  as an \<^verbatim>\<open>int\<close> and as a \<^verbatim>\<open>size_t\<close>; from 31 on the \<^verbatim>\<open>int\<close> expression overflows.
\<close>

definition IndexOf :: "('k \<Rightarrow> size_t) \<Rightarrow> ('k, 'v) ExtendibleHashTable \<Rightarrow> 'k \<Rightarrow> eht_error + nat" where
  "IndexOf hash s key =
     (if global_depth_' s < 31
      then Inr (unat (hash key AND (push_bit (global_depth_' s) 1 - 1)))
      else Inl UndefinedShift)"

definition GetGlobalDepth :: "('k, 'v) ExtendibleHashTable \<Rightarrow> nat" where
  "GetGlobalDepth s = global_depth_' s"

text \<open>\<^verbatim>\<open>dir_[index]->\<close>: the bucket a slot points to.\<close>

definition dir_at :: "('k, 'v) ExtendibleHashTable \<Rightarrow> nat \<Rightarrow> eht_error + nat" where
  "dir_at s index =
     (if index < length (dir_' s)
      then (case dir_' s ! index of None \<Rightarrow> Inl NullBucket | Some bucket \<Rightarrow> Inr bucket)
      else Inl OutOfBounds)"

definition GetLocalDepth :: "('k, 'v) ExtendibleHashTable \<Rightarrow> nat \<Rightarrow> eht_error + nat" where
  "GetLocalDepth s dir_index =
     (case dir_at s dir_index of Inl e \<Rightarrow> Inl e | Inr bucket \<Rightarrow> Inr (GetDepth (buckets s bucket)))"

definition GetNumBuckets :: "('k, 'v) ExtendibleHashTable \<Rightarrow> nat" where
  "GetNumBuckets s = num_buckets_' s"

text \<open>
  Find and Remove return early when the index is past the directory or the slot is null.
  Find's test is \<^verbatim>\<open>index >= dir_.size()\<close>, Remove's is \<^verbatim>\<open>index > dir_.size()\<close>, so Remove reads
  \<^verbatim>\<open>dir_[dir_.size()]\<close> when the index equals the size. The value Find writes to its
  out-parameter and the flag it returns are one \<open>option\<close>.
\<close>

definition Find :: "('k \<Rightarrow> size_t) \<Rightarrow> ('k, 'v) ExtendibleHashTable \<Rightarrow> 'k \<Rightarrow> eht_error + 'v option" where
  "Find hash s key =
     (case IndexOf hash s key of
        Inl e \<Rightarrow> Inl e
      | Inr index \<Rightarrow>
          if length (dir_' s) \<le> index then Inr None
          else (case dir_' s ! index of
                  None \<Rightarrow> Inr None
                | Some bucket \<Rightarrow> Inr (Bucket_Find (buckets s bucket) key)))"

definition Remove_key :: "('k \<Rightarrow> size_t) \<Rightarrow> ('k, 'v) ExtendibleHashTable \<Rightarrow> 'k \<Rightarrow>
    eht_error + (bool \<times> ('k, 'v) ExtendibleHashTable)" where
  "Remove_key hash s key =
     (case IndexOf hash s key of
        Inl e \<Rightarrow> Inl e
      | Inr index \<Rightarrow>
          if length (dir_' s) < index then Inr (False, s)
          else if index = length (dir_' s) then Inl OutOfBounds
          else (case dir_' s ! index of
                  None \<Rightarrow> Inr (False, s)
                | Some bucket \<Rightarrow>
                    (case Bucket_Remove (buckets s bucket) key of
                       (r, b) \<Rightarrow> Inr (r, s\<lparr>buckets := (buckets s)(bucket := b)\<rparr>))))"

text \<open>
  ExpandTable: \<^verbatim>\<open>++global_depth_\<close> comes first; then the vector is resized to twice its size
  (the new slots are null), and slot \<open>i + old_size\<close> is assigned slot \<open>i\<close>, for \<open>i\<close> from 0 up.
  \<^verbatim>\<open>dir_.resize(new_size)\<close> allocates, and throws \<^verbatim>\<open>std::bad_alloc\<close> when the memory is not there;
  the vector is then as it was, and the depth is already incremented. Whether a vector of
  \<open>n\<close> slots can be had is the parameter \<open>alloc\<close>: it stands for the memory of the machine at
  the time of the call. This is the one allocation whose size grows with the table; the
  allocations of a fixed size (a bucket, a list node) are taken to succeed.
\<close>

definition ExpandTable :: "(nat \<Rightarrow> bool) \<Rightarrow> ('k, 'v) ExtendibleHashTable \<Rightarrow>
    ('k, 'v) eht_failure + ('k, 'v) ExtendibleHashTable" where
  "ExpandTable alloc s =
     (let s1 = s\<lparr>global_depth_' := global_depth_' s + 1\<rparr>;
          old_size = length (dir_' s1);
          new_size = 2 * old_size
      in if \<not> alloc new_size then Inl (BadAlloc s1)
         else (let resized = dir_' s1 @ replicate (new_size - old_size) None
               in Inr (s1\<lparr>dir_' := fold (\<lambda>i d. d[i + old_size := d ! i]) [0..<old_size] resized\<rparr>)))"

text \<open>
  The first loop of SplitBucket, over the pairs of the bucket: a pair whose index has bit
  \<open>depth - 1\<close> set (\<^verbatim>\<open>index & (1 << (depth - 1))\<close>) is inserted into the new bucket, whatever
  that Insert returns, and erased from the old one. The result is the pairs that stay and the
  new bucket.
\<close>

fun split_items :: "('k \<Rightarrow> size_t) \<Rightarrow> ('k, 'v) ExtendibleHashTable \<Rightarrow> nat \<Rightarrow> ('k, 'v) Bucket \<Rightarrow>
    ('k \<times> 'v) list \<Rightarrow> eht_error + (('k \<times> 'v) list \<times> ('k, 'v) Bucket)" where
  "split_items hash s depth new_bucket [] = Inr ([], new_bucket)"
| "split_items hash s depth new_bucket (item # rest) =
     (case IndexOf hash s (fst item) of
        Inl e \<Rightarrow> Inl e
      | Inr index \<Rightarrow>
          if 31 \<le> depth - 1 then Inl UndefinedShift
          else if index AND push_bit (depth - 1) 1 \<noteq> 0
          then split_items hash s depth (snd (Bucket_Insert new_bucket (fst item) (snd item))) rest
          else (case split_items hash s depth new_bucket rest of
                  Inl e \<Rightarrow> Inl e
                | Inr (kept, nb) \<Rightarrow> Inr (item # kept, nb)))"

text \<open>
  The second loop of SplitBucket, over the slots \<open>i\<close> of the directory: a slot that holds the
  old bucket and has bit \<open>depth - 1\<close> set (\<^verbatim>\<open>(i >> (depth - 1)) & 1\<close>) is pointed to the new one.
\<close>

fun repoint :: "nat \<Rightarrow> nat \<Rightarrow> nat \<Rightarrow> nat list \<Rightarrow> nat option list \<Rightarrow> eht_error + nat option list" where
  "repoint bucket new_bucket depth [] dir = Inr dir"
| "repoint bucket new_bucket depth (i # rest) dir =
     (if dir ! i = Some bucket
      then (if 64 \<le> depth - 1 then Inl UndefinedShift
            else if drop_bit (depth - 1) i AND 1 \<noteq> 0
            then repoint bucket new_bucket depth rest (dir[i := Some new_bucket])
            else repoint bucket new_bucket depth rest dir)
      else repoint bucket new_bucket depth rest dir)"

definition SplitBucket :: "('k \<Rightarrow> size_t) \<Rightarrow> ('k, 'v) ExtendibleHashTable \<Rightarrow> nat \<Rightarrow>
    eht_error + ('k, 'v) ExtendibleHashTable" where
  "SplitBucket hash s bucket =
     (let new_bucket = next_bucket s;
          heap1 = (buckets s)(new_bucket := Bucket (bucket_size_' s) (GetDepth (buckets s bucket) + 1));
          heap2 = heap1(bucket := IncrementDepth (heap1 bucket));
          depth = GetDepth (heap2 bucket)
      in case split_items hash s depth (heap2 new_bucket) (GetItems (heap2 bucket)) of
           Inl e \<Rightarrow> Inl e
         | Inr (kept, nb) \<Rightarrow>
             (case repoint bucket new_bucket depth [0..<length (dir_' s)] (dir_' s) of
                Inl e \<Rightarrow> Inl e
              | Inr dir \<Rightarrow>
                  Inr (s\<lparr>buckets := heap2(bucket := (heap2 bucket)\<lparr>items_' := kept\<rparr>, new_bucket := nb),
                         next_bucket := new_bucket + 1,
                         num_buckets_' := num_buckets_' s + 1,
                         dir_' := dir\<rparr>)))"

text \<open>
  The loop of Insert, with the current \<open>index\<close>: it ends when Bucket::Insert succeeds; otherwise
  the table is expanded if the bucket's depth is the global depth (and the index computed
  anew), the bucket at the index is split, and the loop goes round again. A throw of
  ExpandTable is not caught in Insert: it ends the call, with the table as ExpandTable left it.
\<close>

function Insert_loop :: "(nat \<Rightarrow> bool) \<Rightarrow> ('k \<Rightarrow> size_t) \<Rightarrow> ('k, 'v) ExtendibleHashTable \<Rightarrow> nat \<Rightarrow>
    'k \<Rightarrow> 'v \<Rightarrow> ('k, 'v) eht_failure + ('k, 'v) ExtendibleHashTable" where
  "Insert_loop alloc hash s index key value =
     (case dir_at s index of
        Inl e \<Rightarrow> Inl (Undefined e)
      | Inr bucket \<Rightarrow>
          (case Bucket_Insert (buckets s bucket) key value of
             (True, b) \<Rightarrow> Inr (s\<lparr>buckets := (buckets s)(bucket := b)\<rparr>)
           | (False, _) \<Rightarrow>
               (case (if GetDepth (buckets s bucket) = global_depth_' s
                      then (case ExpandTable alloc s of
                              Inl e \<Rightarrow> Inl e
                            | Inr s' \<Rightarrow>
                                (case IndexOf hash s' key of
                                   Inl e \<Rightarrow> Inl (Undefined e)
                                 | Inr index' \<Rightarrow> Inr (s', index')))
                      else Inr (s, index)) of
                  Inl e \<Rightarrow> Inl e
                | Inr (s1, index1) \<Rightarrow>
                    (case dir_at s1 index1 of
                       Inl e \<Rightarrow> Inl (Undefined e)
                     | Inr bucket1 \<Rightarrow>
                         (case SplitBucket hash s1 bucket1 of
                            Inl e \<Rightarrow> Inl (Undefined e)
                          | Inr s2 \<Rightarrow> Insert_loop alloc hash s2 index1 key value)))))"
  by pat_completeness auto

definition Insert :: "(nat \<Rightarrow> bool) \<Rightarrow> ('k \<Rightarrow> size_t) \<Rightarrow> ('k, 'v) ExtendibleHashTable \<Rightarrow> 'k \<Rightarrow> 'v \<Rightarrow>
    ('k, 'v) eht_failure + ('k, 'v) ExtendibleHashTable" where
  "Insert alloc hash s key value =
     (case IndexOf hash s key of
        Inl e \<Rightarrow> Inl (Undefined e)
      | Inr index \<Rightarrow> Insert_loop alloc hash s index key value)"

text \<open>The table after a doubling that got its memory.\<close>

definition expanded :: "('k, 'v) ExtendibleHashTable \<Rightarrow> ('k, 'v) ExtendibleHashTable" where
  "expanded s = s\<lparr>global_depth_' := global_depth_' s + 1, dir_' := dir_' s @ dir_' s\<rparr>"







text \<open>
  Sequences of Insert and Remove calls, run from left to right. A call of Insert comes with
  the memory there is while it runs, which may differ from call to call. The run ends at the
  first call that does not return, and is \<open>Inr\<close> when every call returned.
\<close>

datatype ('k, 'v) eht_op = Insert_op "nat \<Rightarrow> bool" 'k 'v | Remove_op 'k


fun apply_op :: "('k \<Rightarrow> size_t) \<Rightarrow> ('k, 'v) ExtendibleHashTable \<Rightarrow> ('k, 'v) eht_op \<Rightarrow>
    ('k, 'v) eht_failure + ('k, 'v) ExtendibleHashTable" where
  "apply_op hash s (Insert_op alloc key value) = Insert alloc hash s key value"
| "apply_op hash s (Remove_op key) =
     (case Remove_key hash s key of Inl e \<Rightarrow> Inl (Undefined e) | Inr (r, s') \<Rightarrow> Inr s')"

fun run :: "('k \<Rightarrow> size_t) \<Rightarrow> ('k, 'v) ExtendibleHashTable \<Rightarrow> ('k, 'v) eht_op list \<Rightarrow>
    ('k, 'v) eht_failure + ('k, 'v) ExtendibleHashTable" where
  "run hash s [] = Inr s"
| "run hash s (op # ops) =
     (case apply_op hash s op of Inl e \<Rightarrow> Inl e | Inr s' \<Rightarrow> run hash s' ops)"



text \<open>\<^verbatim>\<open>std::hash<int>\<close> is the identity, widened to \<^verbatim>\<open>size_t\<close>.\<close>

definition int_hash :: "int \<Rightarrow> size_t" where
  "int_hash key = word_of_int key"

text \<open>
  Two memories. A machine on which a directory of up to \<open>2 ^ 29\<close> slots gets its memory and a
  larger one does not: a slot is a \<^verbatim>\<open>std::shared_ptr\<close> of 16 bytes, so \<open>2 ^ 29\<close> slots are 8 GiB and
  the next doubling asks for 16 GiB. And a memory that never runs out.
\<close>

definition limited :: "nat \<Rightarrow> bool" where
  "limited n \<longleftrightarrow> int n \<le> 536870912"


text \<open>
  The test instance \<^verbatim>\<open>ExtendibleHashTable<int, std::string>\<close> with buckets of two entries, after
  Insert(0, "a"), Insert(1, "b"), Insert(2, "c").
\<close>

definition eht_example :: "(int, string) ExtendibleHashTable" where
  "eht_example =
     projr (run int_hash (ExtendibleHashTable 2)
              [Insert_op limited 0 ''a'', Insert_op limited 1 ''b'', Insert_op limited 2 ''c''])"






text \<open>The depth of the bucket at a slot, for the termination of Insert's loop.\<close>

definition target_depth :: "('k, 'v) ExtendibleHashTable \<Rightarrow> nat \<Rightarrow> nat" where
  "target_depth s index = (case dir_at s index of Inl e \<Rightarrow> 0 | Inr a \<Rightarrow> depth_' (buckets s a))"

section \<open>Properties of the LRU-K replacer\<close>

subsection \<open>The invariant\<close>

lemma lru_inv_new: "lru_inv (LRUKReplacer n k)"
  by (simp add: lru_inv_def all_nodes_def LRUKReplacer_def List_new_def)

lemma size_inv_new: "size_inv (LRUKReplacer n k)"
  by (simp add: size_inv_def all_nodes_def LRUKReplacer_def List_new_def)

lemma lru_inv_RecordAccess_new:
  assumes inv: "lru_inv s" and none: "frame_map_' s f = None" and ra: "RecordAccess s f = Inr s'"
  shows "lru_inv s'"
proof -
  let ?a = "next_node s"
  let ?ns = "(nodes s)(?a := Node f)"
  have fresh: "?a \<notin> set (all_nodes s)"
    using inv unfolding lru_inv_def by auto
  have nof: "\<forall>a \<in> set (all_nodes s). frame_id_' (nodes s a) \<noteq> f"
    using inv none unfolding lru_inv_def by (metis option.distinct(1))
  have flds: "nodes s' = ?ns" "next_node s' = Suc ?a" "frame_map_' s' = (frame_map_' s)(f \<mapsto> ?a)"
    "k_' s' = k_' s"
    using ra none by (auto simp: RecordAccess_def Let_def)
  have lists: "(k_' s \<le> 1 \<and> cache_list (list_' s') = cache_list (list_' s) @ [?a]
                  \<and> history_list (list_' s') = history_list (list_' s))
             \<or> (1 < k_' s \<and> cache_list (list_' s') = cache_list (list_' s)
                  \<and> history_list (list_' s') = history_list (list_' s) @ [?a])"
  proof (cases "k_' s \<le> 1")
    case True
    then show ?thesis using ra none
      by (auto simp: RecordAccess_def Let_def Node_def InsertCacheList_def)
  next
    case False
    then have "1 < k_' s" by (simp add: not_le)
    with False show ?thesis using ra none
      by (auto simp: RecordAccess_def Let_def Node_def InsertHistoryList_def)
  qed
  have set': "set (all_nodes s') = insert ?a (set (all_nodes s))"
    and dist': "distinct (all_nodes s')"
    using lists fresh inv unfolding lru_inv_def all_nodes_def by auto
  have old: "\<forall>a \<in> set (all_nodes s). nodes s' a = nodes s a"
    using fresh flds by auto
  have new: "nodes s' ?a = Node f" using flds by simp
  have inj: "inj_on (\<lambda>a. frame_id_' (nodes s' a)) (set (all_nodes s'))"
    unfolding set' using inv nof old new
    by (auto simp: lru_inv_def inj_on_def Node_def)
  have fm: "\<forall>g a. frame_map_' s' g = Some a \<longleftrightarrow> a \<in> set (all_nodes s') \<and> frame_id_' (nodes s' a) = g"
    unfolding set' flds(3) using inv nof old new fresh
    by (auto simp: lru_inv_def Node_def)
  have bound: "\<forall>a \<in> set (all_nodes s'). a < next_node s'"
    unfolding set' flds(2) using inv by (auto simp: lru_inv_def less_Suc_eq)
  have sub: "\<forall>a \<in> set (cache_list (list_' s)). nodes s' a = nodes s a"
       "\<forall>a \<in> set (history_list (list_' s)). nodes s' a = nodes s a"
    using old by (auto simp: all_nodes_def)
  have c: "\<forall>a \<in> set (cache_list (list_' s')). k_' s' \<le> count_' (nodes s' a)"
    using lists inv sub new unfolding flds(4) by (auto simp: lru_inv_def Node_def)
  have h: "\<forall>a \<in> set (history_list (list_' s')). count_' (nodes s' a) < k_' s'"
    using lists inv sub new unfolding flds(4) by (auto simp: lru_inv_def Node_def)
  show ?thesis
    unfolding lru_inv_def using dist' inj fm bound c h by blast
qed


lemma lru_inv_RecordAccess_old:
  assumes inv: "lru_inv s" and some: "frame_map_' s f = Some a" and ra: "RecordAccess s f = Inr s'"
  shows "lru_inv s'"
proof -
  let ?ns = "(nodes s)(a := (nodes s a)\<lparr>count_' := count_' (nodes s a) + 1\<rparr>)"
  have dist: "distinct (cache_list (list_' s))" "distinct (history_list (list_' s))"
    "set (cache_list (list_' s)) \<inter> set (history_list (list_' s)) = {}"
    using inv unfolding lru_inv_def all_nodes_def by auto
  have ain: "a \<in> set (cache_list (list_' s)) \<or> a \<in> set (history_list (list_' s))"
    using inv some unfolding lru_inv_def all_nodes_def by auto
  have flds: "nodes s' = ?ns" "next_node s' = next_node s" "frame_map_' s' = frame_map_' s"
    "k_' s' = k_' s"
    using ra some by (auto simp: RecordAccess_def Let_def List_Remove_def split: if_splits)
  have lists: "(k_' s \<le> count_' (?ns a) \<and> cache_list (list_' s') = remove1 a (cache_list (list_' s)) @ [a]
                  \<and> history_list (list_' s') = remove1 a (history_list (list_' s)))
             \<or> (count_' (?ns a) < k_' s \<and> cache_list (list_' s') = remove1 a (cache_list (list_' s))
                  \<and> history_list (list_' s') = remove1 a (history_list (list_' s)) @ [a])"
  proof (cases "k_' s \<le> count_' (?ns a)")
    case True
    then show ?thesis using ra some ain
      by (auto simp: RecordAccess_def Let_def List_Remove_def InsertCacheList_def)
  next
    case False
    then have "count_' (?ns a) < k_' s" by (simp add: not_le)
    with False show ?thesis using ra some ain
      by (auto simp: RecordAccess_def Let_def List_Remove_def InsertHistoryList_def)
  qed
  have set': "set (all_nodes s') = set (all_nodes s)"
    and dist': "distinct (all_nodes s')"
    using lists ain dist unfolding all_nodes_def by (auto simp: set_remove1_eq)
  have fid: "\<forall>x. frame_id_' (nodes s' x) = frame_id_' (nodes s x)"
    unfolding flds by simp
  have cnt: "\<forall>x. x \<noteq> a \<longrightarrow> count_' (nodes s' x) = count_' (nodes s x)"
    unfolding flds by simp
  have inj: "inj_on (\<lambda>a. frame_id_' (nodes s' a)) (set (all_nodes s'))"
    unfolding set' using inv fid by (simp add: lru_inv_def)
  have fm: "\<forall>g a. frame_map_' s' g = Some a \<longleftrightarrow> a \<in> set (all_nodes s') \<and> frame_id_' (nodes s' a) = g"
    unfolding set' flds(3) using inv fid by (simp add: lru_inv_def)
  have bound: "\<forall>a \<in> set (all_nodes s'). a < next_node s'"
    unfolding set' flds(2) using inv by (simp add: lru_inv_def)
  have c: "\<forall>x \<in> set (cache_list (list_' s')). k_' s' \<le> count_' (nodes s' x)"
    using lists inv cnt dist unfolding flds(4) by (auto simp: lru_inv_def flds(1) set_remove1_eq)
  have h: "\<forall>x \<in> set (history_list (list_' s')). count_' (nodes s' x) < k_' s'"
    using lists inv cnt dist unfolding flds(4) by (auto simp: lru_inv_def flds(1) set_remove1_eq)
  show ?thesis
    unfolding lru_inv_def using dist' inj fm bound c h by blast
qed

lemma lru_inv_RecordAccess: "lru_inv s \<Longrightarrow> RecordAccess s f = Inr s' \<Longrightarrow> lru_inv s'"
  by (cases "frame_map_' s f") (auto intro: lru_inv_RecordAccess_new lru_inv_RecordAccess_old)

lemma lru_inv_SetEvictable:
  assumes inv: "lru_inv s" and se: "SetEvictable s f b = Inr s'"
  shows "lru_inv s'"
proof -
  have lists: "cache_list (list_' s') = cache_list (list_' s)"
    "history_list (list_' s') = history_list (list_' s)"
    "next_node s' = next_node s" "frame_map_' s' = frame_map_' s" "k_' s' = k_' s"
    using se
    by (auto simp: SetEvictable_def Let_def IncrementSize_def DecrementSize_def
             split: option.splits if_splits)
  have fid: "\<forall>x. frame_id_' (nodes s' x) = frame_id_' (nodes s x)"
    and cnt: "\<forall>x. count_' (nodes s' x) = count_' (nodes s x)"
    using se
    by (auto simp: SetEvictable_def Let_def split: option.splits if_splits)
  show ?thesis
    using inv unfolding lru_inv_def all_nodes_def lists by (simp add: fid cnt)
qed

text \<open>Unlinking a node of the list and erasing its map entry, as Evict and Remove do.\<close>

lemma lru_inv_unlink:
  assumes inv: "lru_inv s" and ain: "a \<in> set (all_nodes s)"
    and l: "List_Remove (nodes s) (list_' s) a = Inr l"
  shows "lru_inv (s\<lparr>list_' := l, frame_map_' := (frame_map_' s)(frame_id_' (nodes s a) := None)\<rparr>)"
proof -
  have dist: "distinct (cache_list (list_' s))" "distinct (history_list (list_' s))"
    "set (cache_list (list_' s)) \<inter> set (history_list (list_' s)) = {}"
    using inv unfolding lru_inv_def all_nodes_def by auto
  have lists: "cache_list l = remove1 a (cache_list (list_' s))"
    "history_list l = remove1 a (history_list (list_' s))"
    using l by (auto simp: List_Remove_def split: if_splits)
  have inj: "inj_on (\<lambda>a. frame_id_' (nodes s a)) (set (all_nodes s))"
    using inv by (simp add: lru_inv_def)
  have other: "\<forall>x \<in> set (all_nodes s). x \<noteq> a \<longrightarrow> frame_id_' (nodes s x) \<noteq> frame_id_' (nodes s a)"
    using inj ain by (auto simp: inj_on_def)
  show ?thesis
    using inv dist other unfolding lru_inv_def all_nodes_def
    by (auto simp: lists set_remove1_eq inj_on_def)
qed


lemma find_SomeD: "find P xs = Some x \<Longrightarrow> x \<in> set xs \<and> P x"
  by (induction xs) (auto split: if_splits)

lemma find_None_iff': "find P xs = None \<longleftrightarrow> (\<forall>x \<in> set xs. \<not> P x)"
  by (induction xs) auto

lemma evict_node_inv:
  assumes "lru_inv s" and "a \<in> set (all_nodes s)" and "evict_node s a = Inr (r, s')"
  shows "lru_inv s'"
  using assms lru_inv_unlink[OF assms(1,2)]
  by (auto simp: evict_node_def split: sum.splits)

lemma lru_inv_Evict:
  assumes inv: "lru_inv s" and ev: "Evict s = Inr (r, s')"
  shows "lru_inv s'"
  using ev inv
  by (auto simp: Evict_def all_nodes_def split: option.splits
           dest!: find_SomeD intro: evict_node_inv)

lemma lru_inv_Remove:
  assumes inv: "lru_inv s" and rm: "Remove s f = Inr s'"
  shows "lru_inv s'"
proof (cases "frame_map_' s f")
  case None
  then show ?thesis using rm inv by (simp add: Remove_def)
next
  case (Some a)
  then have a: "a \<in> set (all_nodes s)" "frame_id_' (nodes s a) = f"
    using inv by (auto simp: lru_inv_def)
  from rm Some obtain l where l: "List_Remove (nodes s) (list_' s) a = Inr l"
    and s': "s' = s\<lparr>list_' := l, frame_map_' := (frame_map_' s)(f := None)\<rparr>"
    by (auto simp: Remove_def split: if_splits sum.splits)
  show ?thesis using lru_inv_unlink[OF inv a(1) l] a(2) s' by simp
qed

lemma reachable_lru_inv: "reachable s \<Longrightarrow> lru_inv s"
  by (induction rule: reachable.induct)
     (auto intro: lru_inv_new lru_inv_RecordAccess lru_inv_SetEvictable lru_inv_Evict lru_inv_Remove)


lemmas lru_example_defs = lru_marked_def lru_accessed_def RecordAccess_def SetEvictable_def
  LRUKReplacer_def List_new_def Node_def InsertCacheList_def InsertHistoryList_def
  IncrementSize_def DecrementSize_def Let_def word_le_nat_alt

lemma lru_accessed_eq: "RecordAccess (LRUKReplacer 7 2) (1 :: 32 word) = Inr lru_accessed"
  by (simp add: lru_example_defs)

lemma lru_marked_eq: "SetEvictable lru_accessed 1 True = Inr lru_marked"
  by (simp add: lru_example_defs)

lemma reachable_lru_accessed: "reachable lru_accessed"
  by (rule reachable_RecordAccess[OF reachable_new lru_accessed_eq])

lemma reachable_lru_marked: "reachable lru_marked"
  by (rule reachable_SetEvictable[OF reachable_lru_accessed lru_marked_eq])

subsection \<open>Eviction priority\<close>

text \<open>
  Claim C3. In a reachable state in which some tracked frame is evictable and has a count
  below \<^verbatim>\<open>k_\<close>, Evict returns a frame, and the count of the frame it returns is below \<^verbatim>\<open>k_\<close>.
\<close>

theorem Evict_prefers_history:
  assumes r: "reachable s"
    and f: "frame_map_' s f = Some a" "evictable_' (nodes s a)" "count_' (nodes s a) < k_' s"
  shows "\<exists>f' a' s'. Evict s = Inr (Some f', s') \<and> frame_map_' s f' = Some a' \<and>
           count_' (nodes s a') < k_' s"
proof -
  have inv: "lru_inv s" using r by (rule reachable_lru_inv)
  have "a \<in> set (all_nodes s)" using inv f(1) by (auto simp: lru_inv_def)
  moreover have "a \<notin> set (cache_list (list_' s))"
    using inv f(3) by (auto simp: lru_inv_def)
  ultimately have ah: "a \<in> set (history_list (list_' s))" by (simp add: all_nodes_def)
  then obtain c where c: "find (\<lambda>a. evictable_' (nodes s a)) (history_list (list_' s)) = Some c"
    using f(2) by (cases "find (\<lambda>a. evictable_' (nodes s a)) (history_list (list_' s))")
      (auto simp: find_None_iff')
  then have ch: "c \<in> set (history_list (list_' s))" by (auto dest: find_SomeD)
  then have cnt: "count_' (nodes s c) < k_' s" using inv by (auto simp: lru_inv_def)
  have fm: "frame_map_' s (frame_id_' (nodes s c)) = Some c"
    using inv ch by (auto simp: lru_inv_def all_nodes_def)
  show ?thesis
    using c ch cnt fm by (auto simp: Evict_def evict_node_def List_Remove_def)
qed


theorem Evict_prefers_history_witness:
  "reachable lru_marked \<and> frame_map_' lru_marked 1 = Some 0 \<and>
   evictable_' (nodes lru_marked 0) \<and> count_' (nodes lru_marked 0) < k_' lru_marked \<and>
   (\<exists>f' a' s'. Evict lru_marked = Inr (Some f', s') \<and> frame_map_' lru_marked f' = Some a' \<and>
      count_' (nodes lru_marked a') < k_' lru_marked)"
proof -
  have h: "frame_map_' lru_marked 1 = Some 0" "evictable_' (nodes lru_marked 0)"
    "count_' (nodes lru_marked 0) < k_' lru_marked"
    by (simp_all add: lru_example_defs)
  show ?thesis
    using Evict_prefers_history[OF reachable_lru_marked h] reachable_lru_marked h by simp
qed

subsection \<open>Remove\<close>

text \<open>
  Claim C8. Remove on a tracked evictable frame (in a reachable state) returns normally, and
  afterwards the frame has no map entry and its node is linked nowhere, while the other map
  entries are as before; on a tracked frame that is not evictable it fails with NotEvictable
  (nothing has been written before the throw); on an unknown frame it returns the state as
  it was.
\<close>

theorem Remove_cases:
  "(reachable s \<and> frame_map_' s f = Some a \<and> evictable_' (nodes s a) \<longrightarrow>
      (\<exists>s'. Remove s f = Inr s' \<and> frame_map_' s' f = None \<and> a \<notin> set (all_nodes s') \<and>
            (\<forall>g. g \<noteq> f \<longrightarrow> frame_map_' s' g = frame_map_' s g))) \<and>
   (frame_map_' s f = Some a \<and> \<not> evictable_' (nodes s a) \<longrightarrow> Remove s f = Inl NotEvictable) \<and>
   (frame_map_' s f = None \<longrightarrow> Remove s f = Inr s)"
proof (intro conjI impI)
  assume h: "reachable s \<and> frame_map_' s f = Some a \<and> evictable_' (nodes s a)"
  then have inv: "lru_inv s" by (simp add: reachable_lru_inv)
  have ain: "a \<in> set (all_nodes s)" using inv h by (auto simp: lru_inv_def)
  have dist: "distinct (cache_list (list_' s))" "distinct (history_list (list_' s))"
    using inv unfolding lru_inv_def all_nodes_def by auto
  show "\<exists>s'. Remove s f = Inr s' \<and> frame_map_' s' f = None \<and> a \<notin> set (all_nodes s') \<and>
            (\<forall>g. g \<noteq> f \<longrightarrow> frame_map_' s' g = frame_map_' s g)"
    using h ain dist by (auto simp: Remove_def List_Remove_def all_nodes_def)
qed (simp_all add: Remove_def)



theorem Remove_cases_witness:
  "(\<exists>s'. Remove lru_marked 1 = Inr s' \<and> frame_map_' s' 1 = None \<and> 0 \<notin> set (all_nodes s') \<and>
      (\<forall>g. g \<noteq> 1 \<longrightarrow> frame_map_' s' g = frame_map_' lru_marked g)) \<and>
   Remove lru_accessed 1 = Inl NotEvictable \<and>
   Remove lru_accessed 5 = Inr lru_accessed"
proof -
  have a: "reachable lru_marked \<and> frame_map_' lru_marked 1 = Some 0 \<and> evictable_' (nodes lru_marked 0)"
    using reachable_lru_marked by (simp add: lru_example_defs)
  have b: "frame_map_' lru_accessed 1 = Some 0 \<and> \<not> evictable_' (nodes lru_accessed 0)"
    by (simp add: lru_example_defs)
  have c: "frame_map_' lru_accessed 5 = None"
    by (simp add: lru_example_defs)
  show ?thesis
    using Remove_cases[of lru_marked 1 0] Remove_cases[of lru_accessed 1 0]
      Remove_cases[of lru_accessed 5] a b c by blast
qed

subsection \<open>Size\<close>

lemma length_filter_remove1:
  "x \<in> set xs \<Longrightarrow> length (filter P xs) = length (filter P (remove1 x xs)) + (if P x then 1 else 0)"
  by (induction xs) auto

lemma length_filter_set:
  "distinct xs \<Longrightarrow> a \<in> set xs \<Longrightarrow> \<not> P a \<Longrightarrow>
   length (filter (\<lambda>x. x = a \<or> P x) xs) = length (filter P xs) + 1"
proof (induction xs)
  case Nil
  then show ?case by simp
next
  case (Cons y ys)
  show ?case
  proof (cases "y = a")
    case True
    then have "a \<notin> set ys" using Cons.prems by simp
    then have "filter (\<lambda>x. x = a \<or> P x) ys = filter P ys"
      by (intro filter_cong) auto
    then show ?thesis using True Cons.prems by simp
  next
    case False
    then show ?thesis using Cons by auto
  qed
qed

lemma length_filter_clear:
  "distinct xs \<Longrightarrow> a \<in> set xs \<Longrightarrow> P a \<Longrightarrow>
   length (filter (\<lambda>x. x \<noteq> a \<and> P x) xs) + 1 = length (filter P xs)"
proof (induction xs)
  case Nil
  then show ?case by simp
next
  case (Cons y ys)
  show ?case
  proof (cases "y = a")
    case True
    then have "a \<notin> set ys" using Cons.prems by simp
    then have "filter (\<lambda>x. x \<noteq> a \<and> P x) ys = filter P ys"
      by (intro filter_cong) auto
    then show ?thesis using True Cons.prems by simp
  next
    case False
    then show ?thesis using Cons by auto
  qed
qed

lemma lru_inv_length_le:
  fixes s :: "('f::finite) LRUKReplacer"
  assumes "lru_inv s"
  shows "length (all_nodes s) \<le> CARD('f)"
proof -
  have "length (all_nodes s) = card (set (all_nodes s))"
    using assms by (simp add: lru_inv_def distinct_card)
  also have "\<dots> = card ((\<lambda>a. frame_id_' (nodes s a)) ` set (all_nodes s))"
    using assms by (simp add: lru_inv_def card_image)
  also have "\<dots> \<le> CARD('f)"
    by (rule card_mono) auto
  finally show ?thesis .
qed

lemma size_inv_RecordAccess:
  assumes inv: "lru_inv s" and sz: "size_inv s" and ra: "RecordAccess s f = Inr s'"
  shows "size_inv s'"
proof (cases "frame_map_' s f")
  case None
  let ?a = "next_node s"
  have fresh: "?a \<notin> set (all_nodes s)"
    using inv unfolding lru_inv_def by auto
  have n: "nodes s' = (nodes s)(?a := Node f)"
    using ra None by (auto simp: RecordAccess_def Let_def)
  have ev: "filter (\<lambda>x. evictable_' (nodes s' x)) (cache_list (list_' s)) = filter (\<lambda>x. evictable_' (nodes s x)) (cache_list (list_' s))"
    "filter (\<lambda>x. evictable_' (nodes s' x)) (history_list (list_' s)) = filter (\<lambda>x. evictable_' (nodes s x)) (history_list (list_' s))"
    using fresh by (auto intro!: filter_cong simp: n all_nodes_def)
  have pa: "\<not> evictable_' (nodes s' ?a)" by (simp add: n Node_def)
  have "size_' (list_' s') = size_' (list_' s) \<and>
        (all_nodes s' = cache_list (list_' s) @ [?a] @ history_list (list_' s) \<or>
         all_nodes s' = cache_list (list_' s) @ history_list (list_' s) @ [?a])"
    using ra None
    by (auto simp: RecordAccess_def Let_def Node_def InsertCacheList_def InsertHistoryList_def all_nodes_def)
  then show ?thesis
    using sz[unfolded size_inv_def all_nodes_def] ev pa unfolding size_inv_def
    by auto
next
  case (Some a)
  let ?ns = "(nodes s)(a := (nodes s a)\<lparr>count_' := count_' (nodes s a) + 1\<rparr>)"
  let ?P = "\<lambda>x. evictable_' (nodes s x)"
  have dist: "set (cache_list (list_' s)) \<inter> set (history_list (list_' s)) = {}"
    using inv unfolding lru_inv_def all_nodes_def by auto
  have ain: "a \<in> set (cache_list (list_' s)) \<or> a \<in> set (history_list (list_' s))"
    using inv Some unfolding lru_inv_def all_nodes_def by auto
  have n: "nodes s' = ?ns"
    using ra Some by (auto simp: RecordAccess_def Let_def List_Remove_def split: if_splits)
  have P': "(\<lambda>x. evictable_' (nodes s' x)) = ?P"
    unfolding n by auto
  have cnt: "length (filter ?P (all_nodes s)) =
    length (filter ?P (remove1 a (cache_list (list_' s)))) +
    length (filter ?P (remove1 a (history_list (list_' s)))) + (if ?P a then 1 else 0)"
  proof (cases "a \<in> set (cache_list (list_' s))")
    case True
    then have "a \<notin> set (history_list (list_' s))" using dist by auto
    then show ?thesis
      using length_filter_remove1[OF True, of ?P] by (simp add: all_nodes_def remove1_idem)
  next
    case False
    then have h: "a \<in> set (history_list (list_' s))" using ain by simp
    show ?thesis
      using length_filter_remove1[OF h, of ?P] False by (simp add: all_nodes_def remove1_idem)
  qed
  have "size_' (list_' s') = size_' (list_' s) \<and>
        (all_nodes s' = remove1 a (cache_list (list_' s)) @ [a] @ remove1 a (history_list (list_' s)) \<or>
         all_nodes s' = remove1 a (cache_list (list_' s)) @ remove1 a (history_list (list_' s)) @ [a])"
    using ra Some ain
    by (auto simp: RecordAccess_def Let_def List_Remove_def InsertCacheList_def InsertHistoryList_def all_nodes_def)
  then show ?thesis
    using sz[unfolded size_inv_def] cnt unfolding size_inv_def P' by auto
qed


lemma unat_size_inc:
  fixes w :: size_t
  assumes "unat w < n" and "n < 2 ^ 64"
  shows "unat (w + 1) = unat w + 1"
proof -
  have "unat w + 1 < 2 ^ 64" using assms by simp
  then show ?thesis by (simp add: unat_word_ariths)
qed

lemma unat_size_dec:
  fixes w :: size_t
  assumes "0 < unat w"
  shows "unat (w - 1) = unat w - 1"
  using assms by (simp add: unat_minus_one unat_gt_0)

lemma size_inv_SetEvictable:
  fixes s :: "('f::finite) LRUKReplacer"
  assumes card: "CARD('f) < 2 ^ 64"
    and inv: "lru_inv s" and sz: "size_inv s" and se: "SetEvictable s f b = Inr s'"
  shows "size_inv s'"
proof -
  from se obtain a where a: "frame_map_' s f = Some a"
    by (auto simp: SetEvictable_def split: option.splits)
  let ?P = "\<lambda>x. evictable_' (nodes s x)"
  let ?n = "length (filter ?P (all_nodes s))"
  have ain: "a \<in> set (all_nodes s)" and dist: "distinct (all_nodes s)"
    using inv a by (auto simp: lru_inv_def)
  have all': "all_nodes s' = all_nodes s"
    using se a
    by (auto simp: SetEvictable_def Let_def IncrementSize_def DecrementSize_def all_nodes_def
             split: if_splits)
  have le: "?n \<le> length (all_nodes s)" by simp
  have len: "length (all_nodes s) < 2 ^ 64"
    using lru_inv_length_le[OF inv] card by simp
  consider (inc) "\<not> ?P a" "b" | (dec) "?P a" "\<not> b" | (same) "?P a = b" by auto
  then show ?thesis
  proof cases
    case inc
    have P': "(\<lambda>x. evictable_' (nodes s' x)) = (\<lambda>x. x = a \<or> ?P x)"
      and sz': "size_' (list_' s') = size_' (list_' s) + 1"
      using se a inc by (auto simp: SetEvictable_def Let_def IncrementSize_def)
    have n': "length (filter (\<lambda>x. evictable_' (nodes s' x)) (all_nodes s)) = ?n + 1"
      unfolding P' using inc(1) by (rule length_filter_set[OF dist ain])
    have "?n + 1 \<le> length (all_nodes s)"
      using n'[symmetric] by simp
    then have "unat (size_' (list_' s)) < length (all_nodes s)"
      using sz by (simp add: size_inv_def)
    then have "unat (size_' (list_' s) + 1) = unat (size_' (list_' s)) + 1"
      using len by (rule unat_size_inc)
    then show ?thesis
      using sz n' unfolding size_inv_def all' sz' by simp
  next
    case dec
    have "a \<in> set (filter ?P (all_nodes s))" using ain dec by simp
    then have pos: "0 < ?n" by (rule length_pos_if_in_set)
    then have "0 < unat (size_' (list_' s))"
      using sz by (simp only: size_inv_def)
    then have szpos: "0 < size_' (list_' s)"
      by (simp only: unat_gt_0 word_neq_0_conv)
    have P': "(\<lambda>x. evictable_' (nodes s' x)) = (\<lambda>x. x \<noteq> a \<and> ?P x)"
      and sz': "size_' (list_' s') = size_' (list_' s) - 1"
      using se a dec szpos by (auto simp: SetEvictable_def Let_def DecrementSize_def)
    have n': "length (filter (\<lambda>x. evictable_' (nodes s' x)) (all_nodes s)) + 1 = ?n"
      unfolding P' using dec(1) by (rule length_filter_clear[OF dist ain])
    have "unat (size_' (list_' s) - 1) = unat (size_' (list_' s)) - 1"
      using pos sz by (intro unat_size_dec) (simp add: size_inv_def)
    then show ?thesis
      using sz n' unfolding size_inv_def all' sz' by simp
  next
    case same
    then have "s' = s"
      using se a by (auto simp: SetEvictable_def Let_def)
    then show ?thesis using sz by simp
  qed
qed

lemma size_inv_unlink:
  assumes inv: "lru_inv s" and sz: "size_inv s" and ain: "a \<in> set (all_nodes s)"
    and ev: "evictable_' (nodes s a)"
    and l: "List_Remove (nodes s) (list_' s) a = Inr l"
  shows "size_inv (s\<lparr>list_' := l, frame_map_' := m\<rparr>)"
proof -
  let ?P = "\<lambda>x. evictable_' (nodes s x)"
  have disj: "a \<in> set (cache_list (list_' s)) \<Longrightarrow> a \<notin> set (history_list (list_' s))"
    using inv by (auto simp: lru_inv_def all_nodes_def)
  have l0: "size_' l = (if evictable_' (nodes s a) then size_' (list_' s) - 1 else size_' (list_' s))"
    "cache_list l = remove1 a (cache_list (list_' s))"
    "history_list l = remove1 a (history_list (list_' s))"
    using l by (auto simp: List_Remove_def split: if_splits)
  have l': "size_' l = size_' (list_' s) - 1"
    "cache_list l @ history_list l = remove1 a (all_nodes s)"
    using l0 ev disj by (auto simp: all_nodes_def remove1_append remove1_idem)
  have cnt: "length (filter ?P (all_nodes s)) = length (filter ?P (remove1 a (all_nodes s))) + 1"
    using length_filter_remove1[OF ain, of ?P] ev by simp
  then have "unat (size_' (list_' s) - 1) = unat (size_' (list_' s)) - 1"
    using sz by (intro unat_size_dec) (simp add: size_inv_def)
  then show ?thesis
    using sz cnt by (simp add: size_inv_def all_nodes_def l')
qed

lemma size_inv_Evict:
  assumes inv: "lru_inv s" and sz: "size_inv s" and ev: "Evict s = Inr (r, s')"
  shows "size_inv s'"
  using ev sz size_inv_unlink[OF inv sz]
  by (auto simp: Evict_def evict_node_def all_nodes_def split: option.splits sum.splits
           dest!: find_SomeD)

lemma size_inv_Remove:
  assumes inv: "lru_inv s" and sz: "size_inv s" and rm: "Remove s f = Inr s'"
  shows "size_inv s'"
proof (cases "frame_map_' s f")
  case None
  then show ?thesis using rm sz by (simp add: Remove_def)
next
  case (Some a)
  then have a: "a \<in> set (all_nodes s)"
    using inv by (auto simp: lru_inv_def)
  from rm Some obtain l where l: "List_Remove (nodes s) (list_' s) a = Inr l"
    and e: "evictable_' (nodes s a)"
    and s': "s' = s\<lparr>list_' := l, frame_map_' := (frame_map_' s)(f := None)\<rparr>"
    by (auto simp: Remove_def split: if_splits sum.splits)
  show ?thesis using size_inv_unlink[OF inv sz a e l] s' by simp
qed

lemma reachable_size_inv:
  fixes s :: "('f::finite) LRUKReplacer"
  assumes "CARD('f) < 2 ^ 64" and "reachable s"
  shows "size_inv s"
  using assms(2)
proof (induction rule: reachable.induct)
  case (reachable_new num_frames k)
  show ?case by (rule size_inv_new)
next
  case (reachable_RecordAccess s f s')
  then show ?case by (auto intro: size_inv_RecordAccess reachable_lru_inv)
next
  case (reachable_SetEvictable s f b s')
  then show ?case using assms(1) by (auto intro: size_inv_SetEvictable reachable_lru_inv)
next
  case (reachable_Evict s r s')
  then show ?case by (auto intro: size_inv_Evict reachable_lru_inv)
next
  case (reachable_Remove s f s')
  then show ?case by (auto intro: size_inv_Remove reachable_lru_inv)
qed

lemma card_evictable_frames:
  assumes inv: "lru_inv s"
  shows "card (evictable_frames s) = length (filter (\<lambda>a. evictable_' (nodes s a)) (all_nodes s))"
proof -
  let ?g = "\<lambda>a. frame_id_' (nodes s a)"
  let ?xs = "filter (\<lambda>a. evictable_' (nodes s a)) (all_nodes s)"
  have "evictable_frames s = ?g ` set ?xs"
    using inv by (auto simp: evictable_frames_def lru_inv_def)
  moreover have "inj_on ?g (set ?xs)"
    using inv by (auto simp: lru_inv_def intro: inj_on_subset)
  moreover have "card (set ?xs) = length ?xs"
    using inv by (intro distinct_card) (simp add: lru_inv_def)
  ultimately show ?thesis by (simp only: card_image)
qed


text \<open>
  Claim C4. In every reachable state Size() is the number of tracked frames whose evictable
  flag is set. The states are those a fresh replacer reaches through RecordAccess,
  SetEvictable, Evict and Remove, so each of them keeps the equation. \<^verbatim>\<open>size_\<close> is a 64-bit
  counter: the frame id type must have fewer than \<open>2 ^ 64\<close> values for it not to wrap.
\<close>

theorem Size_counts_evictable:
  fixes s :: "('f::finite) LRUKReplacer"
  assumes "CARD('f) < 2 ^ 64" and "reachable s"
  shows "unat (Size s) = card (evictable_frames s)"
  using reachable_size_inv[OF assms] card_evictable_frames[OF reachable_lru_inv[OF assms(2)]]
  by (simp add: size_inv_def Size_def List_Size_def)


theorem Size_counts_evictable_witness:
  "CARD(32 word) < 2 ^ 64 \<and> reachable lru_marked \<and>
   unat (Size lru_marked) = card (evictable_frames lru_marked)"
proof -
  have c: "CARD(32 word) < 2 ^ 64" by (simp add: card_word)
  show ?thesis
    using Size_counts_evictable[OF c reachable_lru_marked] c reachable_lru_marked by simp
qed

subsection \<open>RecordAccess does not check the frame id\<close>

text \<open>
  Claim C2. The header documents that RecordAccess throws when the frame id is larger than
  \<^verbatim>\<open>replacer_size_\<close>. The function never reads \<^verbatim>\<open>replacer_size_\<close>: on a replacer made for 7
  frames, RecordAccess(8) returns normally and tracks frame 8.
\<close>

theorem RecordAccess_ignores_replacer_size:
  "\<exists>s'. RecordAccess (LRUKReplacer 7 2) (8 :: 32 word) = Inr s' \<and>
        frame_map_' s' 8 = Some 0 \<and> history_list (list_' s') = [0] \<and>
        frame_map_' (LRUKReplacer 7 2) (8 :: 32 word) = None"
  by (simp add: lru_example_defs)

subsection \<open>A run of the replacer\<close>

text \<open>
  Claim C6. With k = 2: RecordAccess(1), RecordAccess(2), RecordAccess(3), RecordAccess(1),
  then SetEvictable(f, true) for f = 1, 2, 3 give Size() = 3; Evict then returns 2, 3, 1 with
  sizes 2, 1, 0 and a fourth Evict finds no victim.
\<close>

theorem lru_scenario:
  "\<exists>s1 s2 s3 s4 s5 s6 s7 s8 s9 s10.
     RecordAccess (LRUKReplacer n 2 :: 32 word LRUKReplacer) 1 = Inr s1 \<and>
     RecordAccess s1 2 = Inr s2 \<and>
     RecordAccess s2 3 = Inr s3 \<and>
     RecordAccess s3 1 = Inr s4 \<and>
     SetEvictable s4 1 True = Inr s5 \<and>
     SetEvictable s5 2 True = Inr s6 \<and>
     SetEvictable s6 3 True = Inr s7 \<and>
     Size s7 = 3 \<and>
     Evict s7 = Inr (Some 2, s8) \<and> Size s8 = 2 \<and>
     Evict s8 = Inr (Some 3, s9) \<and> Size s9 = 1 \<and>
     Evict s9 = Inr (Some 1, s10) \<and> Size s10 = 0 \<and>
     Evict s10 = Inr (None, s10)"
  by (simp add: RecordAccess_def SetEvictable_def Evict_def evict_node_def Size_def
      List_Remove_def InsertCacheList_def InsertHistoryList_def IncrementSize_def DecrementSize_def
      List_Size_def LRUKReplacer_def List_new_def Node_def Let_def)


section \<open>Properties of the extendible hash table\<close>

subsection \<open>The loops of ExpandTable and SplitBucket\<close>

lemma IndexOf_eq:
  "IndexOf hash s key =
     (if global_depth_' s < 31 then Inr (unat (hash key) mod 2 ^ global_depth_' s)
      else Inl UndefinedShift)"
proof -
  have "hash key AND (push_bit (global_depth_' s) 1 - 1) = take_bit (global_depth_' s) (hash key)"
    by (simp add: take_bit_eq_mask mask_eq_exp_minus_1)
  moreover have "unat (take_bit (global_depth_' s) (hash key)) = take_bit (global_depth_' s) (unat (hash key))"
    by (rule unsigned_take_bit_eq)
  ultimately have "unat (hash key AND (push_bit (global_depth_' s) 1 - 1)) = unat (hash key) mod 2 ^ global_depth_' s"
    by (simp only: take_bit_eq_mod)
  then show ?thesis by (simp only: IndexOf_def)
qed

lemma and_push_bit_test: "((index::nat) AND push_bit n 1 \<noteq> 0) = bit index n"
  by (simp add: and_exp_eq_0_iff_not_bit push_bit_eq_mult)

lemma drop_bit_test: "(drop_bit n (i::nat) AND 1 \<noteq> 0) = bit i n"
  by (simp add: and_one_eq bit_iff_odd_drop_bit mod_2_eq_odd)

lemma fold_copy:
  "m \<le> n \<Longrightarrow> n \<le> length xs \<Longrightarrow> length ys = n \<Longrightarrow> length xs = n \<Longrightarrow>
   fold (\<lambda>i d. d[i + n := d ! i]) [0..<m] (xs @ ys) = xs @ take m xs @ drop m ys"
proof (induction m)
  case 0
  then show ?case by simp
next
  case (Suc m)
  then have IH: "fold (\<lambda>i d. d[i + n := d ! i]) [0..<m] (xs @ ys) = xs @ take m xs @ drop m ys"
    by simp
  have "(xs @ take m xs @ drop m ys)[m + n := (xs @ take m xs @ drop m ys) ! m]
      = xs @ take (Suc m) xs @ drop (Suc m) ys"
    using Suc.prems
    by (simp add: list_update_append nth_append take_Suc_conv_app_nth upd_conv_take_nth_drop
        drop_Suc min_def)
  then show ?case using IH by simp
qed

text \<open>What ExpandTable does: with the memory the table is doubled, without it only the depth moves.\<close>

lemma ExpandTable_eq:
  "ExpandTable alloc s =
     (if alloc (2 * length (dir_' s)) then Inr (expanded s)
      else Inl (BadAlloc (s\<lparr>global_depth_' := global_depth_' s + 1\<rparr>)))"
  using fold_copy[of "length (dir_' s)" "length (dir_' s)" "dir_' s" "replicate (length (dir_' s)) None"]
  by (simp add: ExpandTable_def expanded_def Let_def)


lemma expanded_fields:
  "global_depth_' (expanded s) = global_depth_' s + 1"
  "bucket_size_' (expanded s) = bucket_size_' s"
  "num_buckets_' (expanded s) = num_buckets_' s"
  "buckets (expanded s) = buckets s"
  "next_bucket (expanded s) = next_bucket s"
  by (simp_all add: expanded_def)


lemma split_items_Cons:
  "split_items hash s depth new_bucket (item # rest) =
     (case IndexOf hash s (fst item) of
        Inl e \<Rightarrow> Inl e
      | Inr index \<Rightarrow>
          if 31 \<le> depth - 1 then Inl UndefinedShift
          else if bit index (depth - 1)
          then split_items hash s depth (snd (Bucket_Insert new_bucket (fst item) (snd item))) rest
          else (case split_items hash s depth new_bucket rest of
                  Inl e \<Rightarrow> Inl e
                | Inr (kept, nb) \<Rightarrow> Inr (item # kept, nb)))"
  by (simp only: split_items.simps and_push_bit_test)

lemma repoint_Cons:
  "repoint bucket new_bucket depth (i # rest) dir =
     (if dir ! i = Some bucket
      then (if 64 \<le> depth - 1 then Inl UndefinedShift
            else if bit i (depth - 1)
            then repoint bucket new_bucket depth rest (dir[i := Some new_bucket])
            else repoint bucket new_bucket depth rest dir)
      else repoint bucket new_bucket depth rest dir)"
  by (simp only: repoint.simps drop_bit_test)

declare split_items.simps(2) [simp del] repoint.simps(2) [simp del]
declare split_items_Cons [simp] repoint_Cons [simp]

lemma Bucket_Insert_fields:
  "depth_' (snd (Bucket_Insert b k v)) = depth_' b"
  "array_size_' (snd (Bucket_Insert b k v)) = array_size_' b"
  by (simp_all add: Bucket_Insert_def)

lemma split_items_fields:
  "split_items hash s d nb its = Inr (kept, nb') \<Longrightarrow>
   depth_' nb' = depth_' nb \<and> array_size_' nb' = array_size_' nb"
proof (induction its arbitrary: nb kept)
  case Nil
  then show ?case by simp
next
  case (Cons item rest)
  then show ?case
    by (auto simp: Bucket_Insert_fields split: sum.splits if_splits prod.splits)
qed

lemma repoint_length: "repoint a na d is dir = Inr dir' \<Longrightarrow> length dir' = length dir"
  by (induction "is" arbitrary: dir) (auto split: if_splits)

lemma repoint_nth:
  "repoint a na d is dir = Inr dir' \<Longrightarrow> distinct is \<Longrightarrow> \<forall>i \<in> set is. i < length dir \<Longrightarrow>
   j < length dir \<Longrightarrow>
   dir' ! j = (if j \<in> set is \<and> dir ! j = Some a \<and> bit j (d - 1) then Some na else dir ! j)"
proof (induction "is" arbitrary: dir)
  case Nil
  then show ?case by simp
next
  case (Cons i rest)
  show ?case
  proof (cases "dir ! i = Some a \<and> bit i (d - 1)")
    case True
    then have r: "repoint a na d rest (dir[i := Some na]) = Inr dir'"
      using Cons.prems(1) by (simp split: if_splits)
    have "dir' ! j = (if j \<in> set rest \<and> dir[i := Some na] ! j = Some a \<and> bit j (d - 1) then Some na
                      else dir[i := Some na] ! j)"
      using Cons.IH[OF r] Cons.prems by simp
    then show ?thesis using True Cons.prems by (auto simp: nth_list_update)
  next
    case False
    then have r: "repoint a na d rest dir = Inr dir'"
      using Cons.prems(1) by (auto split: if_splits)
    have "dir' ! j = (if j \<in> set rest \<and> dir ! j = Some a \<and> bit j (d - 1) then Some na else dir ! j)"
      using Cons.IH[OF r] Cons.prems by simp
    then show ?thesis using False by auto
  qed
qed

lemma repoint_guard:
  "repoint a na d is dir = Inr dir' \<Longrightarrow> i \<in> set is \<Longrightarrow> distinct is \<Longrightarrow> dir ! i = Some a \<Longrightarrow>
   d - 1 < 64"
proof (induction "is" arbitrary: dir)
  case Nil
  then show ?case by simp
next
  case (Cons x rest)
  show ?case
  proof (cases "x = i")
    case True
    then show ?thesis using Cons.prems by (auto split: if_splits)
  next
    case False
    then have i: "i \<in> set rest" using Cons.prems by simp
    have "\<exists>dir0. repoint a na d rest dir0 = Inr dir' \<and> dir0 ! i = Some a"
      using Cons.prems False by (auto split: if_splits)
    then show ?thesis using Cons.IH i Cons.prems(3) by auto
  qed
qed


lemma SplitBucket_global_depth:
  "SplitBucket hash s a = Inr s' \<Longrightarrow> global_depth_' s' = global_depth_' s"
  by (auto simp: SplitBucket_def Let_def split: sum.splits prod.splits)

lemma SplitBucket_target_depth:
  assumes sp: "SplitBucket hash s a = Inr s'" and i: "index < length (dir_' s)"
    and a: "dir_' s ! index = Some a"
  shows "\<exists>a'. dir_at s' index = Inr a' \<and> depth_' (buckets s a) < depth_' (buckets s' a') \<and>
           depth_' (buckets s' a') \<le> 64"
proof -
  let ?na = "next_bucket s"
  let ?b0 = "(buckets s)(?na := Bucket (bucket_size_' s) (GetDepth (buckets s a) + 1))"
  let ?b1 = "?b0(a := IncrementDepth (?b0 a))"
  let ?d = "GetDepth (?b1 a)"
  from sp obtain kept nb dir' where
    si: "split_items hash s ?d (?b1 ?na) (GetItems (?b1 a)) = Inr (kept, nb)"
    and rp: "repoint a ?na ?d [0..<length (dir_' s)] (dir_' s) = Inr dir'"
    and s': "dir_' s' = dir'" "buckets s' = ?b1(a := (?b1 a)\<lparr>items_' := kept\<rparr>, ?na := nb)"
    unfolding SplitBucket_def Let_def
    by (auto simp del: fun_upd_apply fun_upd_upd split: sum.splits prod.splits)
  have nbd: "depth_' nb = depth_' (?b1 ?na)"
    using split_items_fields[OF si] by simp
  have g: "?d - 1 < 64"
    using repoint_guard[OF rp _ _ a] i by simp
  have len: "length dir' = length (dir_' s)" using rp by (rule repoint_length)
  have nth: "dir' ! index = (if bit index (?d - 1) then Some ?na else Some a)"
    using repoint_nth[OF rp _ _ i] i a by simp
  have D: "depth_' (buckets s a) < ?d" "?d \<le> 64"
    using g by (auto simp: GetDepth_def IncrementDepth_def Bucket_def)
  have Dna: "depth_' (buckets s a) < depth_' (?b1 ?na)" "depth_' (?b1 ?na) \<le> ?d"
    by (auto simp: GetDepth_def IncrementDepth_def Bucket_def)
  show ?thesis
  proof (cases "bit index (?d - 1)")
    case True
    then have "dir_at s' index = Inr ?na" using nth len i by (simp add: dir_at_def s')
    moreover have "depth_' (buckets s' ?na) = depth_' (?b1 ?na)" using nbd by (simp add: s')
    ultimately show ?thesis using D Dna by (intro exI[of _ ?na]) simp
  next
    case False
    then have "dir_at s' index = Inr a" using nth len i by (simp add: dir_at_def s')
    moreover have "depth_' (buckets s' a) = (if a = ?na then depth_' (?b1 ?na) else ?d)"
      using nbd by (simp add: s' GetDepth_def)
    ultimately show ?thesis using D Dna by (intro exI[of _ a]) auto
  qed
qed

lemma dir_at_Inr: "dir_at s index = Inr a \<longleftrightarrow> index < length (dir_' s) \<and> dir_' s ! index = Some a"
  by (auto simp: dir_at_def split: option.splits)

termination Insert_loop
proof (relation "inv_image (less_than <*lex*> less_than)
    (\<lambda>(alloc, hash, s, index, key, value). (31 - global_depth_' s, 65 - target_depth s index))")
  show "wf (inv_image (less_than <*lex*> less_than)
    (\<lambda>(alloc, hash, s, index, key, value). (31 - global_depth_' s, 65 - target_depth s index)))"
    by (intro wf_inv_image wf_lex_prod wf_less_than)
next
  fix alloc and hash :: "'a \<Rightarrow> size_t" and s :: "('a, 'b) ExtendibleHashTable" and index key "value"
    and bucket x y x2 z x1 s1 index1 bucket1 s2 x2a
  assume da: "dir_at s index = Inr bucket"
    and step: "(if GetDepth (buckets s bucket) = global_depth_' s
          then case ExpandTable alloc s of Inl e \<Rightarrow> Inl e
               | Inr s' \<Rightarrow> (case IndexOf hash s' key of Inl e \<Rightarrow> Inl (Undefined e)
                             | Inr index' \<Rightarrow> Inr (s', index'))
          else Inr (s, index)) = Inr z"
    and z: "(s1, index1) = z"
    and da1: "dir_at s1 index1 = Inr bucket1"
    and sp: "SplitBucket hash s1 bucket1 = Inr s2"
  have g2: "global_depth_' s2 = global_depth_' s1" using sp by (rule SplitBucket_global_depth)
  show "((alloc, hash, s2, index1, key, value), (alloc, hash, s, index, key, value))
       \<in> inv_image (less_than <*lex*> less_than)
    (\<lambda>(alloc, hash, s, index, key, value). (31 - global_depth_' s, 65 - target_depth s index))"
  proof (cases "GetDepth (buckets s bucket) = global_depth_' s")
    case True
    then have "s1 = expanded s" and "IndexOf hash (expanded s) key = Inr index1"
      using step z by (auto simp: ExpandTable_eq split: sum.splits if_splits)
    then have "global_depth_' s1 = global_depth_' s + 1" "global_depth_' s1 < 31"
      by (auto simp: expanded_fields IndexOf_eq split: if_splits)
    then show ?thesis using g2 by auto
  next
    case False
    then have e: "s1 = s" "index1 = index" using step z by auto
    then have b: "bucket1 = bucket" using da da1 by simp
    obtain a' where a': "dir_at s2 index = Inr a'" "depth_' (buckets s bucket) < depth_' (buckets s2 a')"
      "depth_' (buckets s2 a') \<le> 64"
      using SplitBucket_target_depth[of hash s bucket s2 index] sp da e b
      by (auto simp: dir_at_Inr)
    then show ?thesis using g2 e da by (simp add: target_depth_def)
  qed
qed


subsection \<open>Routing, and the pairs of a bucket as a map\<close>



lemma find_item_map_of: "find_item xs k = map_of xs k"
  by (induction xs) auto


lemma assign_first_keys: "map fst (assign_first k v xs) = map fst xs"
  by (induction xs) auto

lemma assign_first_map_of:
  "k \<in> fst ` set xs \<Longrightarrow> map_of (assign_first k v xs) = (map_of xs)(k \<mapsto> v)"
proof (induction xs)
  case Nil
  then show ?case by simp
next
  case (Cons x xs)
  show ?case
  proof (cases "fst x = k")
    case True
    then show ?thesis by (cases x) auto
  next
    case False
    then have "k \<in> fst ` set xs" using Cons.prems by auto
    then have "map_of (assign_first k v xs) = (map_of xs)(k \<mapsto> v)" by (rule Cons.IH)
    then show ?thesis using False by (cases x) (auto simp: fun_upd_twist)
  qed
qed



















declare Insert_loop.simps [simp del]

lemma Insert_loop_done:
  "dir_at s index = Inr a \<Longrightarrow> Bucket_Insert (buckets s a) k v = (True, b) \<Longrightarrow>
   Insert_loop alloc hash s index k v = Inr (s\<lparr>buckets := (buckets s)(a := b)\<rparr>)"
  by (subst Insert_loop.simps) simp





subsection \<open>Insert and Remove keep the invariant\<close>











subsection \<open>Runs\<close>

lemma run_append:
  "run hash s (xs @ ys) = (case run hash s xs of Inl e \<Rightarrow> Inl e | Inr s' \<Rightarrow> run hash s' ys)"
  by (induction xs arbitrary: s) (auto split: sum.splits)





lemma eht_example_run:
  "run int_hash (ExtendibleHashTable 2)
     [Insert_op limited 0 ''a'', Insert_op limited 1 ''b'', Insert_op limited 2 ''c'']
     = Inr eht_example"
proof -
  have "isl (run int_hash (ExtendibleHashTable 2 :: (int, string) ExtendibleHashTable)
              [Insert_op limited 0 ''a'', Insert_op limited 1 ''b'', Insert_op limited 2 ''c''])
          = False"
    by code_simp
  then show ?thesis by (simp add: eht_example_def)
qed


subsection \<open>Whether a split is possible, and what one round of the loop does\<close>












subsection \<open>Tables with one key, and the state a throw leaves\<close>









subsection \<open>Find returns what was inserted last\<close>




subsection \<open>The index is inside the directory\<close>




subsection \<open>Insert of a key that is present\<close>

text \<open>
  Claim C9. When the bucket the key is routed to already holds the key, Insert returns at once:
  the value of the key is overwritten, and the global depth, the bucket count, the directory,
  every local depth and the keys of every bucket are as before, whether the bucket is full or
  not. No state invariant is needed.
\<close>

theorem Insert_upsert:
  assumes "IndexOf hash s key = Inr i" and "i < length (dir_' s)" and "dir_' s ! i = Some a"
    and "key \<in> fst ` set (items_' (buckets s a))"
  shows "\<exists>s'. Insert alloc hash s key value = Inr s' \<and>
           GetGlobalDepth s' = GetGlobalDepth s \<and> GetNumBuckets s' = GetNumBuckets s \<and>
           dir_' s' = dir_' s \<and>
           (\<forall>j. GetLocalDepth s' j = GetLocalDepth s j) \<and>
           (\<forall>x. map fst (items_' (buckets s' x)) = map fst (items_' (buckets s x))) \<and>
           (\<forall>x. x \<noteq> a \<longrightarrow> buckets s' x = buckets s x) \<and>
           Bucket_Find (buckets s' a) key = Some value \<and>
           (\<forall>k. k \<noteq> key \<longrightarrow> Bucket_Find (buckets s' a) k = Bucket_Find (buckets s a) k)"
proof -
  let ?b = "(buckets s a)\<lparr>items_' := assign_first key value (items_' (buckets s a))\<rparr>"
  let ?s' = "s\<lparr>buckets := (buckets s)(a := ?b)\<rparr>"
  have da: "dir_at s i = Inr a" using assms(2,3) by (simp add: dir_at_Inr)
  have bi: "Bucket_Insert (buckets s a) key value = (True, ?b)"
    using assms(4) by (simp add: Bucket_Insert_def)
  have ins: "Insert alloc hash s key value = Inr ?s'"
    using assms(1) Insert_loop_done[OF da bi, of alloc hash] by (simp add: Insert_def)
  have mo: "map_of (assign_first key value (items_' (buckets s a))) =
      (map_of (items_' (buckets s a)))(key \<mapsto> value)"
    using assms(4) by (rule assign_first_map_of)
  have ld: "\<forall>j. GetLocalDepth ?s' j = GetLocalDepth s j"
    by (auto simp: GetLocalDepth_def dir_at_def GetDepth_def split: option.splits)
  have ks: "\<forall>x. map fst (items_' (buckets ?s' x)) = map fst (items_' (buckets s x))"
    by (simp add: assign_first_keys)
  have fd: "Bucket_Find (buckets ?s' a) key = Some value"
    "\<forall>k. k \<noteq> key \<longrightarrow> Bucket_Find (buckets ?s' a) k = Bucket_Find (buckets s a) k"
    by (simp_all add: Bucket_Find_def find_item_map_of mo)
  have "GetGlobalDepth ?s' = GetGlobalDepth s \<and> GetNumBuckets ?s' = GetNumBuckets s \<and>
        dir_' ?s' = dir_' s \<and> (\<forall>x. x \<noteq> a \<longrightarrow> buckets ?s' x = buckets s x)"
    by (simp add: GetGlobalDepth_def GetNumBuckets_def)
  then show ?thesis
    using ins ld ks fd by blast
qed

theorem Insert_upsert_witness:
  "IndexOf int_hash eht_example 2 = Inr 0 \<and> 0 < length (dir_' eht_example) \<and>
   dir_' eht_example ! 0 = Some 0 \<and>
   IsFull (buckets eht_example 0) \<and>
   (\<exists>s'. Insert limited int_hash eht_example 2 ''z'' = Inr s' \<and>
           GetGlobalDepth s' = GetGlobalDepth eht_example \<and>
           GetNumBuckets s' = GetNumBuckets eht_example \<and>
           dir_' s' = dir_' eht_example \<and>
           (\<forall>j. GetLocalDepth s' j = GetLocalDepth eht_example j) \<and>
           (\<forall>x. map fst (items_' (buckets s' x)) = map fst (items_' (buckets eht_example x))) \<and>
           Bucket_Find (buckets s' 0) 2 = Some ''z'')"
proof -
  have h: "IndexOf int_hash eht_example 2 = Inr 0" "0 < length (dir_' eht_example)"
    "dir_' eht_example ! 0 = Some 0" "2 \<in> fst ` set (items_' (buckets eht_example 0))"
    and f: "IsFull (buckets eht_example 0)"
    unfolding eht_example_def by code_simp+
  show ?thesis using Insert_upsert[OF h, of limited "''z''"] h(1,2,3) f by auto
qed

subsection \<open>A run of the table\<close>

text \<open>
  Claim C7. Buckets of two entries, integer keys, identity hash: after Insert(0, "a"),
  Insert(1, "b"), Insert(2, "c") the global depth is 1 and there are 2 buckets; keys 0 and 2
  are in the bucket of slot 0, key 1 is alone in the bucket of slot 1, and Find returns "a",
  "b", "c" for 0, 1, 2.
\<close>

theorem eht_scenario:
  "\<exists>s3. run int_hash (ExtendibleHashTable 2)
           [Insert_op limited 0 ''a'', Insert_op limited 1 ''b'', Insert_op limited 2 ''c'']
           = Inr s3 \<and>
        GetGlobalDepth s3 = 1 \<and> GetNumBuckets s3 = 2 \<and>
        (\<exists>b0 b1. dir_' s3 = [Some b0, Some b1] \<and> b0 \<noteq> b1 \<and>
           map fst (items_' (buckets s3 b0)) = [0, 2] \<and>
           map fst (items_' (buckets s3 b1)) = [1]) \<and>
        Find int_hash s3 0 = Inr (Some ''a'') \<and>
        Find int_hash s3 1 = Inr (Some ''b'') \<and>
        Find int_hash s3 2 = Inr (Some ''c'')"
proof -
  have "GetGlobalDepth eht_example = 1" "GetNumBuckets eht_example = 2"
    "dir_' eht_example = [Some 0, Some 1]"
    "map fst (items_' (buckets eht_example 0)) = [0, 2]"
    "map fst (items_' (buckets eht_example 1)) = [1]"
    "Find int_hash eht_example 0 = Inr (Some ''a'')"
    "Find int_hash eht_example 1 = Inr (Some ''b'')"
    "Find int_hash eht_example 2 = Inr (Some ''c'')"
    unfolding eht_example_def by code_simp+
  then show ?thesis using eht_example_run by (intro exI[of _ eht_example]) simp
qed

subsection \<open>The split loop of Insert\<close>








end
